theory Spec2Isabelle
  imports Main
begin

section \<open>32-bit signed integer arithmetic\<close>

text \<open>
  The program computes with C \<open>int\<close>, 32 bits wide.  Values are modelled as
  \<open>int\<close>; every arithmetic result is brought back into the range
  \<open>[-2^31, 2^31)\<close> by \<open>wrap32\<close>, the two's-complement wrap-around of the
  reference behaviour.  Division and remainder truncate towards zero, as in C.
\<close>

definition INT_MIN :: int where
  "INT_MIN = - 2147483648"

definition INT_MAX :: int where
  "INT_MAX = 2147483647"

definition in_range :: "int \<Rightarrow> bool" where
  "in_range x = (INT_MIN \<le> x \<and> x \<le> INT_MAX)"

definition wrap32 :: "int \<Rightarrow> int" where
  "wrap32 x = (x + 2147483648) mod 4294967296 - 2147483648"

definition c_add :: "int \<Rightarrow> int \<Rightarrow> int" where
  "c_add a b = wrap32 (a + b)"


definition c_mul :: "int \<Rightarrow> int \<Rightarrow> int" where
  "c_mul a b = wrap32 (a * b)"

text \<open>\<open>a / b\<close> and \<open>a % b\<close> for \<open>b \<noteq> 0\<close>; the callers check the divisor.\<close>

definition c_div :: "int \<Rightarrow> int \<Rightarrow> int" where
  "c_div a b = wrap32 (sgn a * sgn b * (\<bar>a\<bar> div \<bar>b\<bar>))"

definition c_mod :: "int \<Rightarrow> int \<Rightarrow> int" where
  "c_mod a b = sgn a * (\<bar>a\<bar> mod \<bar>b\<bar>)"


text \<open>What the C program can do instead of returning a value.\<close>

datatype fault = DivisionByZero | MissingReturn | OutOfBounds

text \<open>Sequencing: a fault ends the computation, a value is passed on.\<close>

definition and_then :: "fault + 'a \<Rightarrow> ('a \<Rightarrow> fault + 'b) \<Rightarrow> fault + 'b" where
  "and_then r f = (case r of Inl e \<Rightarrow> Inl e | Inr v \<Rightarrow> f v)"

section \<open>Modular exponentiation\<close>




section \<open>Modular inverse\<close>






section \<open>Prime oracle\<close>

definition SMALL_PRIMES :: "int list" where
  "SMALL_PRIMES =
     [  2,   3,   5,   7,  11,  13,  17,  19,  23,  29,
       31,  37,  41,  43,  47,  53,  59,  61,  67,  71,
       73,  79,  83,  89,  97, 101, 103, 107, 109, 113,
      127, 131, 137, 139, 149, 151, 157, 163, 167, 173,
      179, 181, 191, 193, 197, 199, 211]"

fun is_prime_count :: "int \<Rightarrow> int list \<Rightarrow> int \<Rightarrow> int" where
  "is_prime_count n [] count = count"
| "is_prime_count n (p # ps) count =
     (let count = (if c_mod n p \<noteq> 0 then count + 1 else count);
          count = (if n = p then count + 1 else count)
      in is_prime_count n ps count)"

definition is_prime :: "int \<Rightarrow> bool" where
  "is_prime n = (is_prime_count n SMALL_PRIMES 0 = 47)"

text \<open>
  Primality as the specification means it, to compare \<open>is_prime\<close> with: no
  divisor strictly between 1 and \<open>n\<close>.
\<close>

definition prime_spec :: "int \<Rightarrow> bool" where
  "prime_spec n = (2 \<le> n \<and> (\<forall>d\<in>{2..<n}. \<not> d dvd n))"




section \<open>Prime-power factor stripper\<close>

text \<open>The globals \<open>int prime_power[10]\<close> and \<open>int prime_power_count\<close>.\<close>

record globals =
  prime_power :: "int list"
  prime_power_count :: int


text \<open>
  The descending scan of \<open>factor_count\<close>; the second argument is \<open>i + 1\<close>.
  The result is the returned index together with the new value of \<open>*n\<close>.
  Leaving the loop reaches the end of a non-void function without a \<open>return\<close>.
\<close>

fun factor_count_scan :: "int list \<Rightarrow> nat \<Rightarrow> int \<Rightarrow> fault + (int \<times> int)" where
  "factor_count_scan pw 0 n = Inl MissingReturn"
| "factor_count_scan pw (Suc i) n =
     (if length pw \<le> i then Inl OutOfBounds
      else if pw ! i = 0 then Inl DivisionByZero
      else if c_mod n (pw ! i) = 0 then Inr (int i, c_div n (pw ! i))
      else factor_count_scan pw i n)"

definition factor_count :: "globals \<Rightarrow> int \<Rightarrow> fault + (int \<times> int)" where
  "factor_count g n = factor_count_scan (prime_power g) (nat (prime_power_count g)) n"

section \<open>Fixed-point accumulator\<close>

text \<open>
  The result is the pair \<open>(*hi, *lo)\<close> after the call.  When \<open>d > 60000\<close> the
  three assignments \<open>d = d / 256; r = n % 256 * 125; n = n / 256\<close> are made;
  \<open>r\<close> is computed from \<open>n\<close> before \<open>n\<close> changes, and \<open>d / 256\<close> is not 0 then.
\<close>

definition fixed_point_sum :: "int \<Rightarrow> int \<Rightarrow> int \<Rightarrow> int \<Rightarrow> fault + (int \<times> int)" where
  "fixed_point_sum n d hi lo =
     (if d = 0 then Inl DivisionByZero
      else
        let r = (if d > 60000 then c_mul (c_mod n 256) 125 else 0);
            n = (if d > 60000 then c_div n 256 else n);
            d = (if d > 60000 then c_div d 256 else d);
            a = c_add (c_mul n 32000) r;
            hi = c_add hi (c_mul (c_div a d) 31250);
            b = c_mul (c_mod a d) 31250;
            hi = c_add hi (c_div b d);
            c = c_mul (c_mod b d) 32000;
            lo = c_add lo (c_mul (c_div c d) 31250);
            lo = c_add lo (c_div (c_mul (c_mod c d) 31250) d);
            hi = (if lo > 1000000000 then c_add hi 1 else hi)
        in Inr (c_mod hi 1000000000, c_mod lo 1000000000))"

text \<open>Repeated accumulation of fractions \<open>(n, d)\<close> into one pair.\<close>

fun accumulate :: "(int \<times> int) list \<Rightarrow> int \<times> int \<Rightarrow> fault + (int \<times> int)" where
  "accumulate [] acc = Inr acc"
| "accumulate ((n, d) # fs) (hi, lo) =
     and_then (fixed_point_sum n d hi lo) (accumulate fs)"

section \<open>Digit-block extractor\<close>


















section \<open>Notions used in the proofs\<close>





section \<open>Arithmetic inside the range\<close>

lemma wrap32_id: "in_range x \<Longrightarrow> wrap32 x = x"
  by (simp add: in_range_def INT_MIN_def INT_MAX_def wrap32_def)

lemma in_range_wrap32: "in_range (wrap32 x)"
proof -
  have "0 \<le> (x + 2147483648) mod 4294967296" "(x + 2147483648) mod 4294967296 < 4294967296"
    by simp_all
  then show ?thesis
    by (simp add: in_range_def INT_MIN_def INT_MAX_def wrap32_def)
qed

lemma c_mod_nonneg: "0 \<le> a \<Longrightarrow> 0 < b \<Longrightarrow> c_mod a b = a mod b"
  by (cases "a = 0") (simp_all add: c_mod_def)

lemma c_div_nonneg:
  assumes a: "0 \<le> a" and b: "0 < b" and r: "in_range a"
  shows "c_div a b = a div b"
proof -
  have "0 \<le> a div b" using a b by (simp add: pos_imp_zdiv_nonneg_iff)
  moreover have "a div b \<le> a" using a b
    by (metis div_by_1 int_one_le_iff_zero_less zdiv_mono2 zero_less_one)
  ultimately have "in_range (a div b)" using r a by (simp add: in_range_def INT_MIN_def INT_MAX_def)
  moreover have "sgn a * sgn b * (\<bar>a\<bar> div \<bar>b\<bar>) = a div b"
    using a b by (cases "a = 0") simp_all
  ultimately show ?thesis by (simp add: c_div_def wrap32_id)
qed

lemma c_mod_eq_0_iff: "b \<noteq> 0 \<Longrightarrow> c_mod a b = 0 \<longleftrightarrow> b dvd a"
proof -
  assume "b \<noteq> 0"
  have "c_mod a b = 0 \<longleftrightarrow> a = 0 \<or> \<bar>a\<bar> mod \<bar>b\<bar> = 0"
    by (auto simp: c_mod_def sgn_if)
  also have "\<dots> \<longleftrightarrow> b dvd a"
    by (auto simp: mod_eq_0_iff_dvd)
  finally show ?thesis .
qed

lemma c_div_exact:
  assumes "0 < b" "b dvd a" "in_range a"
  shows "c_div a b = a div b"
proof -
  from assms obtain k where k: "a = b * k" by (auto simp: dvd_def)
  have q: "a div b = k" using assms k by simp
  have "\<bar>k\<bar> \<le> \<bar>a\<bar>" using assms(1) k
    by (metis abs_ge_zero abs_mult abs_of_pos int_one_le_iff_zero_less leI
    less_le_not_le mult_less_cancel_right2)
  moreover have "a < 0 \<Longrightarrow> k < 0" using assms(1) k by (simp add: mult_less_0_iff)
  ultimately have "in_range k" using assms(3)
    by (cases "a < 0") (auto simp: in_range_def INT_MIN_def INT_MAX_def)
  moreover have "sgn a * sgn b * (\<bar>a\<bar> div \<bar>b\<bar>) = k"
  proof -
    have "\<bar>a\<bar> div \<bar>b\<bar> = \<bar>k\<bar>" using assms(1) k by (simp add: abs_mult)
    moreover have "sgn a = sgn k" using assms(1) k by (simp add: sgn_mult)
    moreover have "sgn b = 1" using assms(1) by simp
    ultimately show ?thesis by (simp add: mult_sgn_abs)
  qed
  ultimately show ?thesis using q by (simp add: c_div_def wrap32_id)
qed

section \<open>The prime oracle\<close>

lemma c_mod_self: "c_mod n n = 0"
  by (simp add: c_mod_def)

lemma is_prime_count_le: "is_prime_count n ps c \<le> c + int (length ps)"
proof (induction ps arbitrary: c)
  case Nil
  then show ?case by simp
next
  case (Cons p ps)
  show ?case
    using Cons.IH [of c] Cons.IH [of "c + 1"] by (auto simp: Let_def c_mod_self)
qed

lemma is_prime_count_full:
  assumes "\<forall>p\<in>set ps. p \<noteq> 0"
  shows "is_prime_count n ps c = c + int (length ps) \<longleftrightarrow> (\<forall>p\<in>set ps. p dvd n \<longrightarrow> n = p)"
  using assms
proof (induction ps arbitrary: c)
  case Nil
  then show ?case by simp
next
  case (Cons p ps)
  then have p: "p \<noteq> 0" and ps: "\<forall>q\<in>set ps. q \<noteq> 0" by simp_all
  show ?case
  proof (cases "p dvd n")
    case True
    show ?thesis
    proof (cases "n = p")
      case True
      with p Cons.IH [OF ps, of "c + 1"] show ?thesis
        by (simp add: c_mod_eq_0_iff add.assoc)
    next
      case False
      have "is_prime_count n ps c \<le> c + int (length ps)" by (rule is_prime_count_le)
      with \<open>p dvd n\<close> False p show ?thesis
        by (simp add: c_mod_eq_0_iff)
    qed
  next
    case False
    then have "n \<noteq> p" by auto
    with False p Cons.IH [OF ps, of "c + 1"] show ?thesis
      by (simp add: c_mod_eq_0_iff add.assoc)
  qed
qed

lemma is_prime_iff: "is_prime n \<longleftrightarrow> (\<forall>p\<in>set SMALL_PRIMES. p dvd n \<longrightarrow> n = p)"
proof -
  have nz: "\<forall>p\<in>set SMALL_PRIMES. p \<noteq> 0" by (simp add: SMALL_PRIMES_def)
  have len: "int (length SMALL_PRIMES) = 47" by (simp add: SMALL_PRIMES_def)
  show ?thesis
    using is_prime_count_full [OF nz, of n 0] len by (simp add: is_prime_def)
qed

lemma small_primes_ge_2: "p \<in> set SMALL_PRIMES \<Longrightarrow> 2 \<le> p"
  by (auto simp: SMALL_PRIMES_def)

lemma small_factor: "\<forall>d\<in>{2..215::int}. \<exists>p\<in>set SMALL_PRIMES. p dvd d"
  by code_simp

text \<open>
  Claim C4.  For every \<open>n\<close> with \<open>2 \<le> n \<le> 46340\<close>, \<open>is_prime n\<close> holds if and
  only if \<open>n\<close> is prime: every composite number in that range has a divisor
  that is at most 215, and every number from 2 to 215 has a divisor in the
  table.
\<close>

theorem is_prime_correct:
  assumes "2 \<le> n" and "n \<le> 46340"
  shows "is_prime n = prime_spec n"
proof
  assume ip: "is_prime n"
  have "\<not> d dvd n" if d: "d \<in> {2..<n}" for d
  proof
    assume dn: "d dvd n"
    then obtain e where e: "n = d * e" by (auto simp: dvd_def)
    from d have d2: "2 \<le> d" and dlt: "d < n" by simp_all
    have e2: "2 \<le> e"
    proof (rule ccontr)
      assume "\<not> 2 \<le> e"
      then have "e \<le> 1" by simp
      with d2 have "d * e \<le> d * 1" by (intro mult_left_mono) simp_all
      with e dlt show False by simp
    qed
    define k where "k = min d e"
    have k2: "2 \<le> k" using d2 e2 by (simp add: k_def)
    have kn: "k dvd n" using e by (auto simp: k_def min_def)
    have kd: "k \<le> d" by (simp add: k_def)
    have "k * k \<le> d * e" using k2 by (intro mult_mono) (simp_all add: k_def)
    with e assms(2) have kk: "k * k \<le> 46340" by simp
    have k215: "k \<le> 215"
    proof (rule ccontr)
      assume "\<not> k \<le> 215"
      then have "216 \<le> k" by simp
      then have "216 * 216 \<le> k * k" by (intro mult_mono) simp_all
      with kk show False by simp
    qed
    with k2 have "k \<in> {2..215}" by simp
    with small_factor have "\<exists>p\<in>set SMALL_PRIMES. p dvd k" by (rule bspec)
    then obtain p where p: "p \<in> set SMALL_PRIMES" "p dvd k" by blast
    from p kn have "p dvd n" by (blast intro: dvd_trans)
    with ip p(1) have "n = p" by (auto simp: is_prime_iff)
    moreover from p(2) k2 have "p \<le> k" by (intro zdvd_imp_le) simp_all
    ultimately show False using kd dlt by simp
  qed
  with assms(1) show "prime_spec n" by (simp add: prime_spec_def)
next
  assume ps: "prime_spec n"
  have "n = p" if p: "p \<in> set SMALL_PRIMES" and pn: "p dvd n" for p
  proof (rule ccontr)
    assume ne: "n \<noteq> p"
    from p have p2: "2 \<le> p" by (rule small_primes_ge_2)
    from pn assms(1) have "p \<le> n" by (intro zdvd_imp_le) simp_all
    with ne p2 have "p \<in> {2..<n}" by simp
    with ps pn show False by (auto simp: prime_spec_def)
  qed
  then show "is_prime n" by (auto simp: is_prime_iff)
qed

theorem is_prime_correct_witness:
  "(2::int) \<le> 211 \<and> (211::int) \<le> 46340 \<and> is_prime 211 = prime_spec 211"
  using is_prime_correct [of 211] by simp

section \<open>The factor stripper\<close>

lemma factor_count_scan_result:
  assumes "j \<le> length pw" and "\<forall>i<j. 0 < pw ! i" and "in_range n"
    and "\<exists>i<j. pw ! i dvd n"
  shows "\<exists>i<j. factor_count_scan pw j n = Inr (int i, n div pw ! i) \<and> pw ! i dvd n \<and>
           (\<forall>i'. i < i' \<and> i' < j \<longrightarrow> \<not> pw ! i' dvd n)"
  using assms
proof (induction j)
  case 0
  then show ?case by simp
next
  case (Suc j)
  from Suc.prems have len: "\<not> length pw \<le> j" and pos: "0 < pw ! j" by simp_all
  show ?case
  proof (cases "pw ! j dvd n")
    case True
    with pos Suc.prems(3) have "c_div n (pw ! j) = n div pw ! j"
      by (intro c_div_exact)
    with True len pos have "factor_count_scan pw (Suc j) n = Inr (int j, n div pw ! j)"
      by (simp add: c_mod_eq_0_iff)
    with True show ?thesis by (intro exI [of _ j]) auto
  next
    case False
    with Suc.prems(4) have ex: "\<exists>i<j. pw ! i dvd n"
      by (metis less_Suc_eq)
    from Suc.prems have "j \<le> length pw" "\<forall>i<j. 0 < pw ! i" by simp_all
    from Suc.IH [OF this Suc.prems(3) ex] obtain i where i: "i < j"
      "factor_count_scan pw j n = Inr (int i, n div pw ! i)" "pw ! i dvd n"
      "\<forall>i'. i < i' \<and> i' < j \<longrightarrow> \<not> pw ! i' dvd n"
      by blast
    from False len pos have "factor_count_scan pw (Suc j) n = factor_count_scan pw j n"
      by (simp add: c_mod_eq_0_iff)
    with i False show ?thesis
      by (intro exI [of _ i]) (auto simp: less_Suc_eq)
  qed
qed

text \<open>
  Claim C5.  When the table holds the powers \<open>p^0, \<dots>, p^(c-1)\<close> of the prime,
  \<open>factor_count\<close> divides \<open>t\<close> by the largest tabulated power that divides it
  and returns the index of that power; when the index is below the last one, the
  quotient is not divisible by \<open>p\<close>.
\<close>

theorem factor_count_strips_maximal_power:
  assumes "2 \<le> p" and "0 < c" and "c \<le> length (prime_power g)"
    and "prime_power_count g = int c" and "\<forall>i<c. prime_power g ! i = p ^ i"
    and "in_range t"
  shows "\<exists>i<c. factor_count g t = Inr (int i, t div p ^ i) \<and> p ^ i dvd t \<and>
           (\<forall>j. i < j \<and> j < c \<longrightarrow> \<not> p ^ j dvd t) \<and>
           (i < c - 1 \<longrightarrow> \<not> p dvd t div p ^ i)"
proof -
  let ?pw = "prime_power g"
  from assms(1,5) have pos: "\<forall>i<c. 0 < ?pw ! i" by simp
  from assms(2,5) have "?pw ! 0 dvd t" by simp
  with assms(2) have ex: "\<exists>i<c. ?pw ! i dvd t" by blast
  from factor_count_scan_result [OF assms(3) pos assms(6) ex] obtain i where i: "i < c"
    "factor_count_scan ?pw c t = Inr (int i, t div ?pw ! i)" "?pw ! i dvd t"
    "\<forall>i'. i < i' \<and> i' < c \<longrightarrow> \<not> ?pw ! i' dvd t"
    by blast
  have pw: "?pw ! j = p ^ j" if "j < c" for j using that assms(5) by simp
  have "\<not> p dvd t div p ^ i" if lt: "i < c - 1"
  proof
    assume "p dvd t div p ^ i"
    then obtain k where k: "t div p ^ i = p * k" by (auto simp: dvd_def)
    from i(3) i(1) have "p ^ i dvd t" by (simp add: pw)
    then have "t = p ^ i * (t div p ^ i)" by simp
    with k have "t = p ^ Suc i * k" by simp
    then have "p ^ Suc i dvd t" by (metis dvd_triv_left)
    moreover from lt have "Suc i < c" by simp
    ultimately show False using i(4) by (auto simp: pw)
  qed
  with i show ?thesis
    by (intro exI [of _ i]) (auto simp: factor_count_def assms(4) pw)
qed

theorem factor_count_strips_maximal_power_witness:
  "\<exists>i<3. factor_count \<lparr>prime_power = [1, 3, 9, 27, 81, 243, 729, 2187, 6561, 19683],
              prime_power_count = 3\<rparr> 18 = Inr (int i, 18 div 3 ^ i) \<and> (3::int) ^ i dvd 18 \<and>
           (\<forall>j. i < j \<and> j < 3 \<longrightarrow> \<not> (3::int) ^ j dvd 18) \<and>
           (i < 3 - 1 \<longrightarrow> \<not> (3::int) dvd 18 div 3 ^ i)"
proof -
  have "\<forall>i<3. [1, 3, 9, 27, 81, 243, 729, 2187, 6561, 19683] ! i = (3::int) ^ i"
    by (simp add: numeral_3_eq_3 less_Suc_eq)
  then show ?thesis
    using factor_count_strips_maximal_power [of 3 3
      "\<lparr>prime_power = [1, 3, 9, 27, 81, 243, 729, 2187, 6561, 19683], prime_power_count = 3\<rparr>" 18]
    by (simp add: in_range_def INT_MIN_def INT_MAX_def)
qed

section \<open>The fall-through of the factor stripper\<close>




















section \<open>The modular inverse\<close>































section \<open>The fixed-point accumulator\<close>

lemma in_range_nonneg: "0 \<le> v \<Longrightarrow> v \<le> 2147483647 \<Longrightarrow> in_range v"
  by (simp add: in_range_def INT_MIN_def INT_MAX_def)

lemma c_add_exact: "in_range (a + b) \<Longrightarrow> c_add a b = a + b"
  by (simp add: c_add_def wrap32_id)

lemma c_mul_exact: "in_range (a * b) \<Longrightarrow> c_mul a b = a * b"
  by (simp add: c_mul_def wrap32_id)

lemma split_div:
  fixes a d k :: int
  shows "(a div d) * k + ((a mod d) * k) div d = (a * k) div d"
  by (metis div_mult1_eq mult.commute)

lemma div_less_of_less_mult:
  fixes a d K :: int
  assumes "0 < d" and "a < d * K"
  shows "a div d < K"
proof (rule ccontr)
  assume "\<not> a div d < K"
  then have "K \<le> a div d" by simp
  with assms(1) have "d * K \<le> d * (a div d)" by (intro mult_left_mono) simp_all
  moreover have "d * (a div d) \<le> a"
  proof -
    have "a = d * (a div d) + a mod d" by simp
    moreover have "0 \<le> a mod d" using assms(1) by simp
    ultimately show ?thesis by linarith
  qed
  ultimately show False using assms(2) by linarith
qed

lemma fixed_point_sum_tail:
  fixes a d hi lo :: int
  assumes d: "0 < d" "d \<le> 60000" and a: "0 \<le> a" "a < d * 32000"
    and hi: "0 \<le> hi" "hi < 1000000000" and lo: "0 \<le> lo" "lo < 1000000000"
  defines "H \<equiv> (a * 31250) div d"
    and "L \<equiv> (((a * 31250) mod d) * 1000000000) div d"
  shows "(let hi = c_add hi (c_mul (c_div a d) 31250);
              b = c_mul (c_mod a d) 31250;
              hi = c_add hi (c_div b d);
              c = c_mul (c_mod b d) 32000;
              lo = c_add lo (c_mul (c_div c d) 31250);
              lo = c_add lo (c_div (c_mul (c_mod c d) 31250) d);
              hi = (if lo > 1000000000 then c_add hi 1 else hi)
          in (Inr (c_mod hi 1000000000, c_mod lo 1000000000) :: fault + int \<times> int))
         = Inr ((hi + H + (if lo + L > 1000000000 then 1 else 0)) mod 1000000000,
                (lo + L) mod 1000000000)"
    and "0 \<le> H" and "H < 1000000000" and "0 \<le> L" and "L < 1000000000"
proof -
  let ?q1 = "a div d"
  let ?r1 = "a mod d"
  have ra: "in_range a" using a d by (intro in_range_nonneg) linarith+
  have q1: "c_div a d = ?q1" by (rule c_div_nonneg [OF a(1) d(1) ra])
  have q1b: "0 \<le> ?q1" "?q1 < 32000"
    using a d by (simp_all add: pos_imp_zdiv_nonneg_iff div_less_of_less_mult)
  have p1: "c_mul ?q1 31250 = ?q1 * 31250"
    using q1b by (intro c_mul_exact in_range_nonneg) linarith+
  have hi1: "c_add hi (?q1 * 31250) = hi + ?q1 * 31250"
    using q1b hi by (intro c_add_exact in_range_nonneg) linarith+
  have r1: "c_mod a d = ?r1" by (rule c_mod_nonneg [OF a(1) d(1)])
  have r1b: "0 \<le> ?r1" "?r1 < d" using d by simp_all
  let ?b = "?r1 * 31250"
  have b: "c_mul ?r1 31250 = ?b"
    using r1b d by (intro c_mul_exact in_range_nonneg) linarith+
  have bb: "0 \<le> ?b" "?b < d * 31250" using r1b by linarith+
  have rb: "in_range ?b" using bb d by (intro in_range_nonneg) linarith+
  have q2: "c_div ?b d = ?b div d" by (rule c_div_nonneg [OF bb(1) d(1) rb])
  have q2b: "0 \<le> ?b div d" "?b div d < 31250"
    using bb d by (simp_all add: pos_imp_zdiv_nonneg_iff div_less_of_less_mult)
  have Hsum: "?q1 * 31250 + ?b div d = H"
    unfolding H_def by (rule split_div)
  have Hb: "0 \<le> H" "H < 1000000000"
  proof -
    have "0 \<le> a * 31250" using a by simp
    then show "0 \<le> H" unfolding H_def using d by (simp add: pos_imp_zdiv_nonneg_iff)
    have "a * 31250 < d * 1000000000" using a by linarith
    then show "H < 1000000000" unfolding H_def using d by (intro div_less_of_less_mult)
  qed
  have hi2: "c_add (hi + ?q1 * 31250) (?b div d) = hi + H"
  proof -
    have "in_range (hi + ?q1 * 31250 + ?b div d)"
      using Hsum Hb hi by (intro in_range_nonneg) linarith+
    then show ?thesis using Hsum by (simp add: c_add_exact add.assoc)
  qed
  let ?rho = "(a * 31250) mod d"
  have r2: "c_mod ?b d = ?rho"
    using bb d by (simp add: c_mod_nonneg mod_mult_left_eq)
  have rhob: "0 \<le> ?rho" "?rho < d" using d by simp_all
  let ?c = "?rho * 32000"
  have c: "c_mul ?rho 32000 = ?c"
    using rhob d by (intro c_mul_exact in_range_nonneg) linarith+
  have cb: "0 \<le> ?c" "?c < d * 32000" using rhob by linarith+
  have rc: "in_range ?c" using cb d by (intro in_range_nonneg) linarith+
  have q3: "c_div ?c d = ?c div d" by (rule c_div_nonneg [OF cb(1) d(1) rc])
  have q3b: "0 \<le> ?c div d" "?c div d < 32000"
    using cb d by (simp_all add: pos_imp_zdiv_nonneg_iff div_less_of_less_mult)
  have p3: "c_mul (?c div d) 31250 = ?c div d * 31250"
    using q3b by (intro c_mul_exact in_range_nonneg) linarith+
  have lo1: "c_add lo (?c div d * 31250) = lo + ?c div d * 31250"
    using q3b lo by (intro c_add_exact in_range_nonneg) linarith+
  have r3: "c_mod ?c d = ?c mod d" by (rule c_mod_nonneg [OF cb(1) d(1)])
  have r3b: "0 \<le> ?c mod d" "?c mod d < d" using d by simp_all
  let ?e = "?c mod d * 31250"
  have e: "c_mul (?c mod d) 31250 = ?e"
    using r3b d by (intro c_mul_exact in_range_nonneg) linarith+
  have eb: "0 \<le> ?e" "?e < d * 31250" using r3b by linarith+
  have re: "in_range ?e" using eb d by (intro in_range_nonneg) linarith+
  have q4: "c_div ?e d = ?e div d" by (rule c_div_nonneg [OF eb(1) d(1) re])
  have Lsum: "?c div d * 31250 + ?e div d = L"
  proof -
    have "?c div d * 31250 + ?e div d = (?c * 31250) div d" by (rule split_div)
    also have "?c * 31250 = ?rho * 1000000000" by simp
    finally show ?thesis by (simp only: L_def)
  qed
  have Lb: "0 \<le> L" "L < 1000000000"
  proof -
    have "0 \<le> ?rho * 1000000000" using rhob by simp
    then show "0 \<le> L" unfolding L_def using d by (simp add: pos_imp_zdiv_nonneg_iff)
    have "?rho * 1000000000 < d * 1000000000" using rhob by linarith
    then show "L < 1000000000" unfolding L_def using d by (intro div_less_of_less_mult)
  qed
  have lo2: "c_add (lo + ?c div d * 31250) (?e div d) = lo + L"
  proof -
    have "in_range (lo + ?c div d * 31250 + ?e div d)"
      using Lsum Lb lo by (intro in_range_nonneg) linarith+
    then show ?thesis using Lsum by (simp add: c_add_exact add.assoc)
  qed
  have carry: "c_add (hi + H) 1 = hi + H + 1"
    using Hb hi by (intro c_add_exact in_range_nonneg) linarith+
  have m1: "c_mod (hi + H + 1) 1000000000 = (hi + H + 1) mod 1000000000"
    using Hb hi by (intro c_mod_nonneg) linarith+
  have m2: "c_mod (hi + H) 1000000000 = (hi + H) mod 1000000000"
    using Hb hi by (intro c_mod_nonneg) linarith+
  have m3: "c_mod (lo + L) 1000000000 = (lo + L) mod 1000000000"
    using Lb lo by (intro c_mod_nonneg) linarith+
  show "0 \<le> H" "H < 1000000000" "0 \<le> L" "L < 1000000000"
    using Hb Lb by simp_all
  show "(let hi = c_add hi (c_mul (c_div a d) 31250);
              b = c_mul (c_mod a d) 31250;
              hi = c_add hi (c_div b d);
              c = c_mul (c_mod b d) 32000;
              lo = c_add lo (c_mul (c_div c d) 31250);
              lo = c_add lo (c_div (c_mul (c_mod c d) 31250) d);
              hi = (if lo > 1000000000 then c_add hi 1 else hi)
          in (Inr (c_mod hi 1000000000, c_mod lo 1000000000) :: fault + int \<times> int))
         = Inr ((hi + H + (if lo + L > 1000000000 then 1 else 0)) mod 1000000000,
                (lo + L) mod 1000000000)"
    unfolding Let_def q1 p1 hi1 r1 b q2 hi2 r2 c q3 p3 lo1 r3 e q4 lo2
    by (simp add: carry m1 m2 m3)
qed

lemma fixed_point_sum_small:
  fixes n d hi lo :: int
  assumes n: "0 \<le> n" "n < d" and d: "d \<le> 60000"
    and hi: "0 \<le> hi" "hi < 1000000000" and lo: "0 \<le> lo" "lo < 1000000000"
  defines "H \<equiv> (n * 1000000000) div d"
    and "L \<equiv> (((n * 1000000000) mod d) * 1000000000) div d"
  shows "fixed_point_sum n d hi lo =
           Inr ((hi + H + (if lo + L > 1000000000 then 1 else 0)) mod 1000000000,
                (lo + L) mod 1000000000)"
    and "0 \<le> H" and "H < 1000000000" and "0 \<le> L" and "L < 1000000000"
proof -
  have dp: "0 < d" using n by simp
  have dz: "(d = 0) = False" using dp by simp
  have nb: "(60000 < d) = False" using d by simp
  have a: "c_add (c_mul n 32000) 0 = n * 32000"
  proof -
    have "in_range (n * 32000)" using n d by (intro in_range_nonneg) linarith+
    then show ?thesis by (simp add: c_add_def c_mul_def wrap32_id)
  qed
  have ab: "0 \<le> n * 32000" "n * 32000 < d * 32000" using n by simp_all
  have e: "n * 32000 * 31250 = n * 1000000000" by simp
  note t = fixed_point_sum_tail [OF dp d ab hi lo, unfolded e, folded H_def L_def]
  show "0 \<le> H" "H < 1000000000" "0 \<le> L" "L < 1000000000" by (rule t)+
  have "fixed_point_sum n d hi lo =
     (let hi = c_add hi (c_mul (c_div (n * 32000) d) 31250);
              b = c_mul (c_mod (n * 32000) d) 31250;
              hi = c_add hi (c_div b d);
              c = c_mul (c_mod b d) 32000;
              lo = c_add lo (c_mul (c_div c d) 31250);
              lo = c_add lo (c_div (c_mul (c_mod c d) 31250) d);
              hi = (if lo > 1000000000 then c_add hi 1 else hi)
          in (Inr (c_mod hi 1000000000, c_mod lo 1000000000) :: fault + int \<times> int))"
    unfolding fixed_point_sum_def
    apply (subst Let_def)
    apply (subst Let_def)
    apply (subst Let_def)
    apply (subst Let_def)
    apply (simp only: nb dz if_False a)
    done
  then show "fixed_point_sum n d hi lo =
           Inr ((hi + H + (if lo + L > 1000000000 then 1 else 0)) mod 1000000000,
                (lo + L) mod 1000000000)"
    by (simp only: t(1))
qed

lemma fixed_point_sum_large:
  fixes n d hi lo :: int
  assumes n: "0 \<le> n" "n < d" and d: "60000 < d" "256 dvd d" "d \<le> 8388608"
    and hi: "0 \<le> hi" "hi < 1000000000" and lo: "0 \<le> lo" "lo < 1000000000"
  defines "H \<equiv> (n * 1000000000) div d"
    and "L \<equiv> (((n * 1000000000) mod d) * 1000000000) div d"
  shows "fixed_point_sum n d hi lo =
           Inr ((hi + H + (if lo + L > 1000000000 then 1 else 0)) mod 1000000000,
                (lo + L) mod 1000000000)"
    and "0 \<le> H" and "H < 1000000000" and "0 \<le> L" and "L < 1000000000"
proof -
  from d(2) obtain d' where d': "d = 256 * d'" by (auto simp: dvd_def)
  have dp: "0 < d'" and dle: "d' \<le> 60000" using d d' by simp_all
  have dz: "(d = 0) = False" using d by simp
  have nb: "(60000 < d) = True" using d by simp
  have rd: "in_range d" using d by (intro in_range_nonneg) linarith+
  have dd: "c_div d 256 = d'" using d rd d' by (simp add: c_div_nonneg)
  have rn: "in_range n" using n d by (intro in_range_nonneg) linarith+
  have nd: "c_div n 256 = n div 256" using n rn by (simp add: c_div_nonneg)
  have nm: "c_mod n 256 = n mod 256" using n by (simp add: c_mod_nonneg)
  have mb: "0 \<le> n mod 256" "n mod 256 < 256" by simp_all
  have qb: "0 \<le> n div 256" using n by (simp add: pos_imp_zdiv_nonneg_iff)
  have split: "n div 256 * 32000 + n mod 256 * 125 = 125 * n"
  proof -
    have "q * 32000 + r * 125 = 125 * (q * 256 + r)" for q r :: int by simp
    then have "n div 256 * 32000 + n mod 256 * 125 = 125 * (n div 256 * 256 + n mod 256)" .
    then show ?thesis by (simp only: div_mult_mod_eq)
  qed
  have r: "c_mul (n mod 256) 125 = n mod 256 * 125"
    using mb by (intro c_mul_exact in_range_nonneg) linarith+
  have q: "c_mul (n div 256) 32000 = n div 256 * 32000"
    using qb mb split n d by (intro c_mul_exact in_range_nonneg) linarith+
  have a: "c_add (n div 256 * 32000) (n mod 256 * 125) = 125 * n"
  proof -
    have "in_range (n div 256 * 32000 + n mod 256 * 125)"
      unfolding split using n d by (intro in_range_nonneg) linarith+
    then show ?thesis by (simp add: c_add_exact split)
  qed
  have ab: "0 \<le> 125 * n" "125 * n < d' * 32000" using n d' by simp_all
  have e: "125 * n * 31250 = n * 3906250" by simp
  have Hd: "(n * 3906250) div d' = H"
  proof -
    have "n * 1000000000 = 256 * (n * 3906250)" by simp
    then have "(n * 1000000000) div (256 * d') = (256 * (n * 3906250)) div (256 * d')"
      by (simp only:)
    also have "\<dots> = (n * 3906250) div d'" by (rule div_mult_mult1) simp
    finally show ?thesis unfolding H_def d' by (rule sym)
  qed
  have Ld: "(((n * 3906250) mod d') * 1000000000) div d' = L"
  proof -
    have "n * 1000000000 = 256 * (n * 3906250)" by simp
    then have "(n * 1000000000) mod (256 * d') = (256 * (n * 3906250)) mod (256 * d')"
      by (simp only:)
    also have "\<dots> = 256 * ((n * 3906250) mod d')" by (rule mod_mult_mult1)
    finally have "((n * 1000000000) mod (256 * d')) * 1000000000
       = 256 * (((n * 3906250) mod d') * 1000000000)"
      by simp
    then have "(((n * 1000000000) mod (256 * d')) * 1000000000) div (256 * d')
       = (256 * (((n * 3906250) mod d') * 1000000000)) div (256 * d')"
      by (rule arg_cong)
    also have "\<dots> = (((n * 3906250) mod d') * 1000000000) div d'"
      by (rule div_mult_mult1) simp
    finally show ?thesis unfolding L_def d' by (rule sym)
  qed
  note t = fixed_point_sum_tail [OF dp dle ab hi lo, unfolded e Hd Ld]
  show "0 \<le> H" "H < 1000000000" "0 \<le> L" "L < 1000000000" by (rule t)+
  have "fixed_point_sum n d hi lo =
     (let hi = c_add hi (c_mul (c_div (125 * n) d') 31250);
              b = c_mul (c_mod (125 * n) d') 31250;
              hi = c_add hi (c_div b d');
              c = c_mul (c_mod b d') 32000;
              lo = c_add lo (c_mul (c_div c d') 31250);
              lo = c_add lo (c_div (c_mul (c_mod c d') 31250) d');
              hi = (if lo > 1000000000 then c_add hi 1 else hi)
          in (Inr (c_mod hi 1000000000, c_mod lo 1000000000) :: fault + int \<times> int))"
    unfolding fixed_point_sum_def
    apply (subst Let_def)
    apply (subst Let_def)
    apply (subst Let_def)
    apply (subst Let_def)
    apply (simp only: nb dz if_False if_True dd nd nm r q a)
    done
  then show "fixed_point_sum n d hi lo =
           Inr ((hi + H + (if lo + L > 1000000000 then 1 else 0)) mod 1000000000,
                (lo + L) mod 1000000000)"
    by (simp only: t(1))
qed

end
